theory Spec2Isabelle
  imports Main "HOL-Library.Word"
begin

section \<open>Data model of the interrupt-driven UART driver (iuart.h, iuart.c)\<close>

text \<open>
  A \<open>char\<close> and a \<open>uint8_t\<close> are 8-bit words; comparison of words is the unsigned
  comparison the line editor applies to its \<open>uint8_t c\<close>. The indices of the transmit
  buffer are C \<open>int\<close>s; they are modelled as \<open>int\<close>, and the invariant
  proved below shows that they stay in \<open>[0, 256)\<close>, so that no 16-bit overflow and
  no access outside \<open>UartBuffer\<close> happens on a state the driver reaches.
\<close>

type_synonym byte = "8 word"

definition UART_BUFFER_SIZE :: int where
  "UART_BUFFER_SIZE = 256"

definition RX_BUFSIZE :: nat where
  "RX_BUFSIZE = 80"

text \<open>The constants of avr-libc's \<open>stdio.h\<close> that the driver returns:
  \<open>EOF\<close> is \<open>(-1)\<close>, \<open>_FDEV_ERR\<close> is \<open>(-1)\<close> and \<open>_FDEV_EOF\<close> is \<open>(-2)\<close>.\<close>

definition EOF :: int where
  "EOF = - 1"

definition FDEV_ERR :: int where
  "FDEV_ERR = - 1"

definition FDEV_EOF :: int where
  "FDEV_EOF = - 2"

text \<open>
  The globals of iuart.h together with the two pieces of hardware the transmit path
  touches: bit \<open>TXCIE0\<close> of register \<open>UCSR0B\<close> (the transmit-complete interrupt
  enable) and the transmit data register \<open>UDR0\<close>, recorded as the list of all bytes
  written to it, oldest first.
\<close>

record uart =
  UartBuffer :: "byte list"
  UartBufferNextByteToSend :: int
  UartBufferNextFree :: int
  UartSendingInProgress :: int
  TXCIE0 :: bool
  UDR0 :: "byte list"

text \<open>The state of the C globals at reset (zero-initialised storage, nothing sent).\<close>

definition power_on :: uart where
  "power_on = \<lparr> UartBuffer = replicate 256 0,
                UartBufferNextByteToSend = 0,
                UartBufferNextFree = 0,
                UartSendingInProgress = 0,
                TXCIE0 = False,
                UDR0 = [] \<rparr>"

text \<open>\<open>init_iuart\<close>: clears the first buffer byte, both indices and the flag, and
  enables the transmit-complete interrupt (the baud rate and frame format registers are
  not part of the model).\<close>

definition init_iuart :: "uart \<Rightarrow> uart" where
  "init_iuart s =
     s\<lparr> UartBuffer := (UartBuffer s)[0 := 0],
        UartBufferNextByteToSend := 0,
        UartBufferNextFree := 0,
        UartSendingInProgress := 0,
        TXCIE0 := True \<rparr>"

section \<open>Transmit engine\<close>

text \<open>Lines 65 to 101 of \<open>UART0_Putchar\<close>: everything after the newline test. The
  result is the return status and the new state.\<close>

definition UART0_Putchar_body :: "byte \<Rightarrow> uart \<Rightarrow> int \<times> uart" where
  "UART0_Putchar_body c s =
     (if UartSendingInProgress s = 0 then
        (0, s\<lparr> UartSendingInProgress := 1, UDR0 := UDR0 s @ [c] \<rparr>)
      else
        (let s1 = s\<lparr> TXCIE0 := False \<rparr>;
             s2 = s1\<lparr> UartBuffer := (UartBuffer s1)[nat (UartBufferNextFree s1) := c] \<rparr>;
             UartBufferNextFree_last = UartBufferNextFree s2;
             s3 = s2\<lparr> UartBufferNextFree := UartBufferNextFree s2 + 1 \<rparr>;
             s4 = (if UartBufferNextFree s3 = UART_BUFFER_SIZE
                   then s3\<lparr> UartBufferNextFree := 0 \<rparr> else s3)
         in if UartBufferNextFree s4 = UartBufferNextByteToSend s4
            then (EOF, s4\<lparr> UartBufferNextFree := UartBufferNextFree_last, TXCIE0 := True \<rparr>)
            else (0, s4\<lparr> TXCIE0 := True \<rparr>)))"

text \<open>\<open>UART0_Putchar\<close>: a line feed first sends a carriage return through a recursive
  call whose status is not looked at (lines 61 and 62), then the body runs.\<close>

function UART0_Putchar :: "byte \<Rightarrow> uart \<Rightarrow> int \<times> uart" where
  "UART0_Putchar c s =
     (let s' = (if c = 0x0A then snd (UART0_Putchar 0x0D s) else s)
      in UART0_Putchar_body c s')"
  by pat_completeness auto
termination
  by (relation "measure (\<lambda>(c, s). if c = 0x0A then 1 else 0)") auto

declare UART0_Putchar.simps [simp del]

text \<open>The transmit-complete interrupt handler (lines 262 to 277).\<close>

definition USART_TX_vect :: "uart \<Rightarrow> uart" where
  "USART_TX_vect s =
     (if UartBufferNextByteToSend s = UartBufferNextFree s then
        s\<lparr> UartSendingInProgress := 0 \<rparr>
      else
        (let s1 = s\<lparr> UartSendingInProgress := 1 \<rparr>;
             s2 = s1\<lparr> UDR0 := UDR0 s1 @ [UartBuffer s1 ! nat (UartBufferNextByteToSend s1)] \<rparr>;
             s3 = s2\<lparr> UartBufferNextByteToSend := UartBufferNextByteToSend s2 + 1 \<rparr>
         in if UartBufferNextByteToSend s3 = UART_BUFFER_SIZE
            then s3\<lparr> UartBufferNextByteToSend := 0 \<rparr> else s3))"

text \<open>A caller issuing one \<open>UART0_Putchar\<close> call per byte of a list, with no interrupt
  in between; the statuses are collected in call order.\<close>

fun UART0_Putchars :: "byte list \<Rightarrow> uart \<Rightarrow> int list \<times> uart" where
  "UART0_Putchars [] s = ([], s)"
| "UART0_Putchars (c # cs) s =
     (let (r, s1) = UART0_Putchar c s;
          (rs, s2) = UART0_Putchars cs s1
      in (r # rs, s2))"

text \<open>The same call when the transmit-complete interrupt is allowed to fire once at
  the point between the return of the recursive carriage-return call and line 66. The
  recursive call has set \<open>TXCIE0\<close> again on every path (line 96), so the handler can
  run there; \<open>fire\<close> says whether a transmission completes at that moment.\<close>

definition tx_interrupt :: "bool \<Rightarrow> uart \<Rightarrow> uart" where
  "tx_interrupt fire s = (if fire \<and> TXCIE0 s then USART_TX_vect s else s)"

definition UART0_Putchar_irq :: "bool \<Rightarrow> byte \<Rightarrow> uart \<Rightarrow> int \<times> uart" where
  "UART0_Putchar_irq fire c s =
     (let s' = (if c = 0x0A then tx_interrupt fire (snd (UART0_Putchar 0x0D s)) else s)
      in UART0_Putchar_body c s')"

subsection \<open>The statements of \<open>UART0_Putchar\<close> interleaved with the interrupt\<close>

text \<open>Lines 76 to 96 on their own: the statements of the \<open>else\<close> branch, which run
  with the transmit-complete interrupt masked.\<close>

definition UART0_Putchar_append :: "byte \<Rightarrow> uart \<Rightarrow> int \<times> uart" where
  "UART0_Putchar_append c s =
     (let s1 = s\<lparr> TXCIE0 := False \<rparr>;
          s2 = s1\<lparr> UartBuffer := (UartBuffer s1)[nat (UartBufferNextFree s1) := c] \<rparr>;
          UartBufferNextFree_last = UartBufferNextFree s2;
          s3 = s2\<lparr> UartBufferNextFree := UartBufferNextFree s2 + 1 \<rparr>;
          s4 = (if UartBufferNextFree s3 = UART_BUFFER_SIZE
                then s3\<lparr> UartBufferNextFree := 0 \<rparr> else s3)
      in if UartBufferNextFree s4 = UartBufferNextByteToSend s4
         then (EOF, s4\<lparr> UartBufferNextFree := UartBufferNextFree_last, TXCIE0 := True \<rparr>)
         else (0, s4\<lparr> TXCIE0 := True \<rparr>))"

text \<open>
  What a call of \<open>UART0_Putchar\<close> still has to run, as a list of its statements that
  touch the shared state: the test of line 66 for a byte, the assignment of line 69, the
  write of line 71, and the masked block of lines 76 to 96. A call with a line feed is
  the test for the carriage return (the recursive call) followed by the test for the line
  feed. The interrupt is masked only inside the block of lines 76 to 96; the test of line
  66 runs with the interrupt enabled, so the handler can run between the test and the
  statement the test has chosen.
\<close>

datatype tx_op = Test byte | SetFlag byte | WriteUDR byte | Append byte

text \<open>One step of the driver: the caller runs its next statement, or the
  transmit-complete interrupt handler runs, which it can whenever \<open>TXCIE0\<close> is set. A
  configuration is the shared state and the statements the running call has left (none
  between calls).\<close>

inductive tx_step :: "uart \<times> tx_op list \<Rightarrow> uart \<times> tx_op list \<Rightarrow> bool" where
  step_call:
    "tx_step (s, []) (s, if c = 0x0A then [Test 0x0D, Test c] else [Test c])"
| step_test_idle:
    "UartSendingInProgress s = 0 \<Longrightarrow> tx_step (s, Test c # k) (s, SetFlag c # k)"
| step_test_busy:
    "UartSendingInProgress s \<noteq> 0 \<Longrightarrow> tx_step (s, Test c # k) (s, Append c # k)"
| step_set_flag:
    "tx_step (s, SetFlag c # k) (s\<lparr> UartSendingInProgress := 1 \<rparr>, WriteUDR c # k)"
| step_write:
    "tx_step (s, WriteUDR c # k) (s\<lparr> UDR0 := UDR0 s @ [c] \<rparr>, k)"
| step_append:
    "tx_step (s, Append c # k) (snd (UART0_Putchar_append c s), k)"
| step_interrupt:
    "TXCIE0 s \<Longrightarrow> tx_step (s, k) (USART_TX_vect s, k)"

subsection \<open>Notions used to state the transmit properties\<close>

text \<open>Advancing an index with wrap-around, as lines 81 to 85 and 275 to 277 do.\<close>

definition next_index :: "int \<Rightarrow> int" where
  "next_index i = (if i + 1 = UART_BUFFER_SIZE then 0 else i + 1)"

text \<open>The buffer is full when advancing the write index would make it equal to the
  read index (the test of line 87); it is empty when the handler would find nothing to
  send and no transmission is in progress.\<close>

definition buffer_full :: "uart \<Rightarrow> bool" where
  "buffer_full s = (next_index (UartBufferNextFree s) = UartBufferNextByteToSend s)"

definition buffer_empty :: "uart \<Rightarrow> bool" where
  "buffer_empty s =
     (UartBufferNextFree s = UartBufferNextByteToSend s \<and> UartSendingInProgress s = 0)"

definition indices_in_range :: "uart \<Rightarrow> bool" where
  "indices_in_range s =
     (0 \<le> UartBufferNextFree s \<and> UartBufferNextFree s < UART_BUFFER_SIZE \<and>
      0 \<le> UartBufferNextByteToSend s \<and> UartBufferNextByteToSend s < UART_BUFFER_SIZE)"

text \<open>Well-formed transmit state: the array has its declared size and both indices
  point into it.\<close>

definition uart_wf :: "uart \<Rightarrow> bool" where
  "uart_wf s = (length (UartBuffer s) = 256 \<and> indices_in_range s)"

text \<open>The slots of a circular array from index \<open>t\<close> up to, not including, index
  \<open>h\<close>, with wrap-around at the end of the array.\<close>

definition ring_slice :: "nat \<Rightarrow> nat \<Rightarrow> 'a list \<Rightarrow> 'a list" where
  "ring_slice t h xs =
     (if t \<le> h then take (h - t) (drop t xs) else drop t xs @ take h xs)"

text \<open>The bytes waiting in the ring buffer, oldest first: the slots from the read index
  up to the write index. Lemma \<open>USART_TX_vect_sends_oldest\<close> below shows that this is
  the order in which the interrupt handler writes them to \<open>UDR0\<close>.\<close>

definition queued :: "uart \<Rightarrow> byte list" where
  "queued s =
     ring_slice (nat (UartBufferNextByteToSend s)) (nat (UartBufferNextFree s)) (UartBuffer s)"

text \<open>Everything emitted toward the hardware so far: the bytes already written to
  \<open>UDR0\<close> followed by the bytes queued for the interrupt handler.\<close>

definition emitted :: "uart \<Rightarrow> byte list" where
  "emitted s = UDR0 s @ queued s"

text \<open>The configurations the transmit side reaches from initialisation by any
  interleaving of the statements of \<open>UART0_Putchar\<close> calls with firings of the
  transmit-complete interrupt.\<close>

inductive reachable :: "uart \<times> tx_op list \<Rightarrow> bool" where
  reach_init: "length (UartBuffer s0) = 256 \<Longrightarrow> reachable (init_iuart s0, [])"
| reach_step: "reachable cfg \<Longrightarrow> tx_step cfg cfg' \<Longrightarrow> reachable cfg'"

text \<open>The number of bytes a sequence of calls emits when nothing is dropped: a line
  feed counts twice, for the carriage return sent before it.\<close>

definition expanded_length :: "byte list \<Rightarrow> nat" where
  "expanded_length cs = length cs + length (filter (\<lambda>c. c = 0x0A) cs)"

text \<open>A well-formed state in which nothing waits in the ring buffer when no
  transmission is in progress. A call leaves the state so when no interrupt runs between
  its test of line 66 and the statement that follows; the interrupt running there can
  break it (lemma \<open>race_state_reachable\<close>).\<close>

definition uart_inv :: "uart \<Rightarrow> bool" where
  "uart_inv s = (uart_wf s \<and>
     (UartSendingInProgress s = 0 \<longrightarrow> UartBufferNextFree s = UartBufferNextByteToSend s))"

text \<open>The number of bytes the ring buffer can still take; one of the 256 slots is never
  used, so that a full buffer differs from an empty one.\<close>

definition free_slots :: "uart \<Rightarrow> nat" where
  "free_slots s = 255 - length (queued s)"

text \<open>The state after \<open>k\<close> bytes have gone through \<open>UART0_Putchar_body\<close> since
  initialisation with no interrupt in between: the first one went to \<open>UDR0\<close>, the
  others sit in the slots \<open>0\<close> to \<open>k - 2\<close>.\<close>

definition burst_state :: "nat \<Rightarrow> uart \<Rightarrow> bool" where
  "burst_state k s =
     (UartBufferNextByteToSend s = 0 \<and>
      (if k = 0 then UartSendingInProgress s = 0 \<and> UartBufferNextFree s = 0
       else UartSendingInProgress s \<noteq> 0 \<and> UartBufferNextFree s = int k - 1))"

text \<open>The state after 256 calls \<open>UART0_Putchar('a')\<close> from initialisation with no
  interrupt in between: a transmission is in progress and the buffer is full.\<close>

definition full_state :: uart where
  "full_state = snd (UART0_Putchars (replicate 256 0x61) (init_iuart power_on))"

text \<open>The state after \<open>UART0_Putchar('a')\<close> from initialisation and then
  \<open>UART0_Putchar('b')\<close> with the interrupt handler running between the test of line 66,
  which finds a transmission in progress, and the mask of line 76: the handler finds
  nothing queued and clears the flag, then \<open>'b'\<close> is queued with no transmission in
  progress.\<close>

definition race_state :: uart where
  "race_state =
     snd (UART0_Putchar_append 0x62
            (USART_TX_vect (snd (UART0_Putchar 0x61 (init_iuart power_on)))))"

text \<open>The state after \<open>UART0_Putchar('a')\<close> from initialisation and then
  \<open>UART0_Putchar('\n')\<close> with the handler running inside the carriage-return call,
  between its test of line 66 and the mask of line 76: the carriage return is queued
  with the flag cleared, and the line feed then goes straight to \<open>UDR0\<close>.\<close>

definition newline_race_state :: uart where
  "newline_race_state =
     snd (UART0_Putchar_body 0x0A
            (snd (UART0_Putchar_append 0x0D
                    (USART_TX_vect (snd (UART0_Putchar 0x61 (init_iuart power_on)))))))"

section \<open>Receive side: the line editor \<open>uart_getchar\<close>\<close>

text \<open>
  What one pass of the collecting loop reads from the hardware once
  \<open>loop_until_bit_is_set(UCSR0A, RXC0)\<close> has returned: the bits \<open>FE0\<close> and \<open>DOR0\<close>
  of \<open>UCSR0A\<close> and the variable \<open>ReceivedByte\<close>, which the receive interrupt handler
  (line 242) has filled from \<open>UDR0\<close>. The input of the line editor is the list of
  these readings, one per pass; when the list is used up no further byte ever arrives
  and the busy-wait of line 147 spins forever.
\<close>

record rx_event =
  FE0 :: bool
  DOR0 :: bool
  ReceivedByte :: byte

text \<open>A byte received without a framing error and without an overrun.\<close>

definition rx_ok :: "byte \<Rightarrow> rx_event" where
  "rx_ok c = \<lparr> FE0 = False, DOR0 = False, ReceivedByte = c \<rparr>"

text \<open>The function-local statics of \<open>uart_getchar\<close>: the line buffer \<open>b\<close> and the read
  pointer \<open>rxp\<close>, which is null (\<open>None\<close>) or points at \<open>b + r\<close> (\<open>Some r\<close>).\<close>

record rx_statics =
  getchar_b :: "byte list"
  getchar_rxp :: "nat option"

definition rx_power_on :: rx_statics where
  "rx_power_on = \<lparr> getchar_b = replicate 80 0, getchar_rxp = None \<rparr>"

text \<open>The erase sequence of lines 188 to 190 (and 204 to 206, 214 to 216): backspace,
  space, backspace, each through \<open>UART0_Putchar\<close>, whose status is ignored.\<close>

definition erase_echo :: "uart \<Rightarrow> uart" where
  "erase_echo tx =
     snd (UART0_Putchar 0x08 (snd (UART0_Putchar 0x20 (snd (UART0_Putchar 0x08 tx)))))"

text \<open>The \<open>for\<close> loop of lines 197 and 198 (Ctrl-R), with \<open>cp2\<close> and \<open>cp\<close> as offsets
  into \<open>b\<close>.\<close>

function redraw :: "byte list \<Rightarrow> nat \<Rightarrow> nat \<Rightarrow> uart \<Rightarrow> uart" where
  "redraw b cp2 cp tx =
     (if cp2 < cp then redraw b (cp2 + 1) cp (snd (UART0_Putchar (b ! cp2) tx)) else tx)"
  by pat_completeness auto
termination
  by (relation "measure (\<lambda>(b, cp2, cp, tx). cp - cp2)") auto

declare redraw.simps [simp del]

text \<open>The \<open>while\<close> loop of lines 202 to 208 (Ctrl-U).\<close>

function kill_line :: "nat \<Rightarrow> uart \<Rightarrow> nat \<times> uart" where
  "kill_line cp tx = (if cp > 0 then kill_line (cp - 1) (erase_echo tx) else (cp, tx))"
  by pat_completeness auto
termination
  by (relation "measure (\<lambda>(cp, tx). cp)") auto

declare kill_line.simps [simp del]

text \<open>The \<open>while\<close> loop of lines 212 to 218 (Ctrl-W): it stops at the start of the line
  or when the byte before the cursor is a space.\<close>

function kill_word :: "byte list \<Rightarrow> nat \<Rightarrow> uart \<Rightarrow> nat \<times> uart" where
  "kill_word b cp tx =
     (if cp > 0 \<and> b ! (cp - 1) \<noteq> 0x20 then kill_word b (cp - 1) (erase_echo tx)
      else (cp, tx))"
  by pat_completeness auto
termination
  by (relation "measure (\<lambda>(b, cp, tx). cp)") auto

declare kill_word.simps [simp del]

text \<open>How one pass of the loop of lines 145 to 221 ends: it goes round again
  (\<open>continue\<close>, or the \<open>break\<close> of a \<open>switch\<close> case), it leaves the loop with the line
  complete (the \<open>break\<close> of line 161), or it returns from \<open>uart_getchar\<close> with an error
  code. Each carries the line buffer, the cursor \<open>cp\<close> where it is still live, and the
  transmit state after the echo.\<close>

datatype loop_exit =
  Continue "byte list" nat uart
| Break "byte list" uart
| Return int "byte list" uart

text \<open>The test of lines 166 and 167.\<close>

definition printable :: "byte \<Rightarrow> bool" where
  "printable c = ((0x20 \<le> c \<and> c \<le> 0x7E) \<or> 0xA0 \<le> c)"

text \<open>One pass of the loop, lines 148 to 220, on the reading \<open>ev\<close>.\<close>

definition getchar_iteration :: "rx_event \<Rightarrow> byte list \<Rightarrow> nat \<Rightarrow> uart \<Rightarrow> loop_exit" where
  "getchar_iteration ev b cp tx =
     (if FE0 ev then Return FDEV_EOF b tx
      else if DOR0 ev then Return FDEV_ERR b tx
      else
        let c = ReceivedByte ev;
            c = (if c = 0x0D then 0x0A else c)
        in if c = 0x0A then Break (b[cp := c]) (snd (UART0_Putchar c tx))
           else
             let c = (if c = 0x09 then 0x20 else c)
             in if printable c then
                  (if cp = RX_BUFSIZE - 1 then Continue b cp (snd (UART0_Putchar 0x07 tx))
                   else Continue (b[cp := c]) (cp + 1) (snd (UART0_Putchar c tx)))
                else if c = 0x03 then Return (- 1) b tx
                else if c = 0x08 \<or> c = 0x7F then
                  (if cp > 0 then Continue b (cp - 1) (erase_echo tx) else Continue b cp tx)
                else if c = 0x12 then
                  Continue b cp (redraw b 0 cp (snd (UART0_Putchar 0x0D tx)))
                else if c = 0x15 then
                  (case kill_line cp tx of (cp', tx') \<Rightarrow> Continue b cp' tx')
                else if c = 0x17 then
                  (case kill_word b cp tx of (cp', tx') \<Rightarrow> Continue b cp' tx')
                else Continue b cp tx)"

text \<open>The loop itself, one pass per reading. The result is how the loop ended and the
  readings not consumed; \<open>Continue\<close> with no reading left is the loop waiting at line
  147 for a byte that never comes.\<close>

fun collect :: "rx_event list \<Rightarrow> byte list \<Rightarrow> nat \<Rightarrow> uart \<Rightarrow> loop_exit \<times> rx_event list" where
  "collect [] b cp tx = (Continue b cp tx, [])"
| "collect (ev # evs) b cp tx =
     (case getchar_iteration ev b cp tx of
        Continue b' cp' tx' \<Rightarrow> collect evs b' cp' tx'
      | Break b' tx' \<Rightarrow> (Break b' tx', evs)
      | Return v b' tx' \<Rightarrow> (Return v b' tx', evs))"

text \<open>Lines 223 to 227, with \<open>rxp\<close> pointing at \<open>b + r\<close>: the byte read through the
  \<open>uint8_t c\<close> is returned as a value from 0 to 255.\<close>

definition getchar_fetch :: "nat \<Rightarrow> rx_statics \<Rightarrow> int \<times> rx_statics" where
  "getchar_fetch r st =
     (let c = getchar_b st ! r;
          st1 = st\<lparr> getchar_rxp := Some (r + 1) \<rparr>;
          st2 = (if c = 0x0A then st1\<lparr> getchar_rxp := None \<rparr> else st1)
      in (uint c, st2))"

text \<open>\<open>uart_getchar\<close>. The result is \<open>None\<close> when the call never returns; otherwise it
  is the returned \<open>int\<close>, the readings left, the statics and the transmit state.\<close>

definition uart_getchar ::
  "rx_event list \<Rightarrow> rx_statics \<Rightarrow> uart \<Rightarrow> (int \<times> rx_event list \<times> rx_statics \<times> uart) option" where
  "uart_getchar evs st tx =
     (case getchar_rxp st of
        None \<Rightarrow>
          (case collect evs (getchar_b st) 0 tx of
             (Continue b' cp' tx', evs') \<Rightarrow> None
           | (Return v b' tx', evs') \<Rightarrow> Some (v, evs', st\<lparr> getchar_b := b' \<rparr>, tx')
           | (Break b' tx', evs') \<Rightarrow>
               (case getchar_fetch 0 (st\<lparr> getchar_b := b', getchar_rxp := Some 0 \<rparr>) of
                  (v, st') \<Rightarrow> Some (v, evs', st', tx')))
      | Some r \<Rightarrow>
          (case getchar_fetch r st of (v, st') \<Rightarrow> Some (v, evs, st', tx)))"


subsection \<open>Notions used to state the receive properties\<close>







section \<open>Properties of the transmit engine\<close>

lemma UART0_Putchar_other:
  "c \<noteq> 0x0A \<Longrightarrow> UART0_Putchar c s = UART0_Putchar_body c s"
  by (simp add: UART0_Putchar.simps)

lemma UART0_Putchar_LF:
  "UART0_Putchar 0x0A s = UART0_Putchar_body 0x0A (snd (UART0_Putchar_body 0x0D s))"
  by (simp add: UART0_Putchar.simps [of "0x0A"] UART0_Putchar.simps [of "0x0D"])

subsection \<open>Slices of a circular array\<close>

lemma ring_slice_update_head:
  "ring_slice t h (xs[h := c]) = ring_slice t h xs"
  by (auto simp: ring_slice_def drop_update_swap)

lemma update_last_slot: "length ys = Suc k \<Longrightarrow> ys[k := c] = take k ys @ [c]"
  by (simp add: upd_conv_take_nth_drop)

lemma take_Suc_update: "k < length ys \<Longrightarrow> take (Suc k) (ys[k := c]) = take k ys @ [c]"
  by (simp add: take_Suc_conv_app_nth)

lemma ring_slice_enqueue:
  assumes "h < length xs" "t < length xs" "(if Suc h = length xs then 0 else Suc h) \<noteq> t"
  shows "ring_slice t (if Suc h = length xs then 0 else Suc h) (xs[h := c]) = ring_slice t h xs @ [c]"
proof (cases "t \<le> h")
  case True
  show ?thesis
  proof (cases "Suc h = length xs")
    case wrap: True
    with assms have "0 < t" by auto
    moreover have "drop t (xs[h := c]) = take (h - t) (drop t xs) @ [c]"
      using True wrap by (simp add: drop_update_swap update_last_slot drop_take)
    ultimately show ?thesis using True wrap by (simp add: ring_slice_def)
  next
    case False
    have "take (Suc (h - t)) (drop t (xs[h := c])) = take (h - t) (drop t xs) @ [c]"
      using True assms(1) by (simp add: drop_update_swap take_Suc_update)
    then show ?thesis using True False by (simp add: ring_slice_def Suc_diff_le)
  qed
next
  case False
  then have "Suc h < t" using assms by (auto split: if_splits)
  then show ?thesis using assms
    by (simp add: ring_slice_def take_Suc_update)
qed

lemma ring_slice_dequeue:
  assumes "h < length xs" "t < length xs" "t \<noteq> h"
  shows "ring_slice t h xs = xs ! t # ring_slice (if Suc t = length xs then 0 else Suc t) h xs"
proof (cases "t \<le> h")
  case True
  then have "t < h" using assms by simp
  then have "take (h - t) (drop t xs) = xs ! t # take (h - Suc t) (drop (Suc t) xs)"
    using assms by (metis Cons_nth_drop_Suc Suc_diff_Suc take_Suc_Cons)
  then show ?thesis using \<open>t < h\<close> assms by (simp add: ring_slice_def)
next
  case False
  have "drop t xs = xs ! t # drop (Suc t) xs"
    using assms by (simp add: Cons_nth_drop_Suc)
  then show ?thesis using False assms by (auto simp: ring_slice_def)
qed

lemma length_ring_slice:
  "t < length xs \<Longrightarrow> h < length xs \<Longrightarrow>
   length (ring_slice t h xs) = (if t \<le> h then h - t else length xs - t + h)"
  by (auto simp: ring_slice_def)

subsection \<open>The transmit body and the interrupt handler\<close>

lemmas tx_defs = UART0_Putchar_body_def USART_TX_vect_def UART_BUFFER_SIZE_def EOF_def
  next_index_def buffer_full_def buffer_empty_def indices_in_range_def uart_wf_def

lemma body_full:
  assumes "UartSendingInProgress s \<noteq> 0" "buffer_full s"
  shows "UART0_Putchar_body c s =
     (EOF, s\<lparr> UartBuffer := (UartBuffer s)[nat (UartBufferNextFree s) := c], TXCIE0 := True \<rparr>)"
  using assms by (auto simp: tx_defs Let_def)

lemma body_idle:
  "UartSendingInProgress s = 0 \<Longrightarrow>
   UART0_Putchar_body c s = (0, s\<lparr> UartSendingInProgress := 1, UDR0 := UDR0 s @ [c] \<rparr>)"
  by (simp add: tx_defs)

lemma body_enqueue:
  assumes "UartSendingInProgress s \<noteq> 0" "\<not> buffer_full s"
  shows "UART0_Putchar_body c s =
     (0, s\<lparr> UartBuffer := (UartBuffer s)[nat (UartBufferNextFree s) := c],
            UartBufferNextFree := next_index (UartBufferNextFree s), TXCIE0 := True \<rparr>)"
  using assms by (auto simp: tx_defs Let_def)

lemma nat_next_index:
  assumes "0 \<le> i" "i < 256"
  shows "nat (next_index i) = (if Suc (nat i) = 256 then 0 else Suc (nat i))"
  using assms by (auto simp: next_index_def UART_BUFFER_SIZE_def nat_add_distrib)

lemma queued_dropped:
  "queued (s\<lparr> UartBuffer := (UartBuffer s)[nat (UartBufferNextFree s) := c], TXCIE0 := x \<rparr>) = queued s"
  by (simp add: queued_def ring_slice_update_head)

lemma queued_enqueue:
  assumes "uart_wf s" "\<not> buffer_full s"
  shows "queued (s\<lparr> UartBuffer := (UartBuffer s)[nat (UartBufferNextFree s) := c],
                   UartBufferNextFree := next_index (UartBufferNextFree s), TXCIE0 := x \<rparr>) = queued s @ [c]"
proof -
  let ?h = "nat (UartBufferNextFree s)" and ?t = "nat (UartBufferNextByteToSend s)"
  let ?xs = "UartBuffer s"
  have r: "0 \<le> UartBufferNextFree s" "UartBufferNextFree s < 256"
    "0 \<le> UartBufferNextByteToSend s" "UartBufferNextByteToSend s < 256" "length ?xs = 256"
    using assms(1) by (simp_all add: uart_wf_def indices_in_range_def UART_BUFFER_SIZE_def)
  have n: "nat (next_index (UartBufferNextFree s)) = (if Suc ?h = length ?xs then 0 else Suc ?h)"
    using r by (simp add: nat_next_index)
  have "0 \<le> next_index (UartBufferNextFree s)"
    using r by (simp add: next_index_def)
  then have "nat (next_index (UartBufferNextFree s)) \<noteq> ?t"
    using assms(2) r by (simp add: buffer_full_def eq_nat_nat_iff)
  then have "(if Suc ?h = length ?xs then 0 else Suc ?h) \<noteq> ?t"
    unfolding n .
  moreover have "?h < length ?xs" "?t < length ?xs" using r by simp_all
  ultimately have "ring_slice ?t (if Suc ?h = length ?xs then 0 else Suc ?h) (?xs[?h := c])
      = ring_slice ?t ?h ?xs @ [c]"
    by (rule ring_slice_enqueue [rotated 2])
  then show ?thesis by (simp add: queued_def n)
qed

lemma next_index_neq: "next_index i \<noteq> i"
  by (simp add: next_index_def UART_BUFFER_SIZE_def)

lemma next_index_range:
  "0 \<le> i \<Longrightarrow> i < UART_BUFFER_SIZE \<Longrightarrow> 0 \<le> next_index i \<and> next_index i < UART_BUFFER_SIZE"
  by (simp add: next_index_def UART_BUFFER_SIZE_def)

lemma next_index_inj:
  "0 \<le> i \<Longrightarrow> i < UART_BUFFER_SIZE \<Longrightarrow> 0 \<le> j \<Longrightarrow> j < UART_BUFFER_SIZE \<Longrightarrow>
   next_index i = next_index j \<Longrightarrow> i = j"
  by (simp add: next_index_def UART_BUFFER_SIZE_def split: if_splits)

lemma body_cases:
  "UART0_Putchar_body c s =
     (if UartSendingInProgress s = 0 then
        (0, s\<lparr> UartSendingInProgress := 1, UDR0 := UDR0 s @ [c] \<rparr>)
      else if buffer_full s then
        (EOF, s\<lparr> UartBuffer := (UartBuffer s)[nat (UartBufferNextFree s) := c], TXCIE0 := True \<rparr>)
      else
        (0, s\<lparr> UartBuffer := (UartBuffer s)[nat (UartBufferNextFree s) := c],
               UartBufferNextFree := next_index (UartBufferNextFree s), TXCIE0 := True \<rparr>))"
  by (simp add: body_idle body_full body_enqueue)

lemma vect_cases:
  "USART_TX_vect s =
     (if UartBufferNextByteToSend s = UartBufferNextFree s then s\<lparr> UartSendingInProgress := 0 \<rparr>
      else s\<lparr> UartSendingInProgress := 1,
              UDR0 := UDR0 s @ [UartBuffer s ! nat (UartBufferNextByteToSend s)],
              UartBufferNextByteToSend := next_index (UartBufferNextByteToSend s) \<rparr>)"
  by (simp add: USART_TX_vect_def next_index_def Let_def)

lemma body_wf: "uart_wf s \<Longrightarrow> uart_wf (snd (UART0_Putchar_body c s))"
  using next_index_range [of "UartBufferNextFree s"]
  by (simp add: body_cases uart_wf_def indices_in_range_def)

lemma body_inv: "uart_inv s \<Longrightarrow> uart_inv (snd (UART0_Putchar_body c s))"
  using body_wf [of s c] by (simp add: uart_inv_def) (simp add: body_cases)

lemma vect_wf: "uart_wf s \<Longrightarrow> uart_wf (USART_TX_vect s)"
  using next_index_range [of "UartBufferNextByteToSend s"]
  by (simp add: vect_cases uart_wf_def indices_in_range_def)

lemma vect_inv: "uart_inv s \<Longrightarrow> uart_inv (USART_TX_vect s)"
  using vect_wf [of s] by (simp add: uart_inv_def) (simp add: vect_cases)

lemma putchar_cases:
  "UART0_Putchar c s =
     (if c = 0x0A then UART0_Putchar_body 0x0A (snd (UART0_Putchar_body 0x0D s))
      else UART0_Putchar_body c s)"
  by (simp add: UART0_Putchar_LF UART0_Putchar_other)

lemma putchar_wf: "uart_wf s \<Longrightarrow> uart_wf (snd (UART0_Putchar c s))"
  by (simp add: putchar_cases body_wf)

lemma putchar_inv: "uart_inv s \<Longrightarrow> uart_inv (snd (UART0_Putchar c s))"
  by (simp add: putchar_cases body_inv)

lemma UART0_Putchar_irq_False: "UART0_Putchar_irq False c s = UART0_Putchar c s"
  by (simp add: UART0_Putchar_irq_def tx_interrupt_def putchar_cases UART0_Putchar_other)

lemma init_inv: "length (UartBuffer s0) = 256 \<Longrightarrow> uart_inv (init_iuart s0)"
  by (simp add: uart_inv_def uart_wf_def indices_in_range_def init_iuart_def UART_BUFFER_SIZE_def)

lemma tx_interrupt_inv: "uart_inv s \<Longrightarrow> uart_inv (tx_interrupt fire s)"
  by (simp add: tx_interrupt_def vect_inv)

lemma putchar_irq_inv: "uart_inv s \<Longrightarrow> uart_inv (snd (UART0_Putchar_irq fire c s))"
  by (simp add: UART0_Putchar_irq_def body_inv tx_interrupt_inv putchar_inv)

lemma body_append:
  "UartSendingInProgress s \<noteq> 0 \<Longrightarrow> UART0_Putchar_body c s = UART0_Putchar_append c s"
  by (simp add: UART0_Putchar_body_def UART0_Putchar_append_def)

lemma append_cases:
  "UART0_Putchar_append c s =
     (if buffer_full s then
        (EOF, s\<lparr> UartBuffer := (UartBuffer s)[nat (UartBufferNextFree s) := c], TXCIE0 := True \<rparr>)
      else
        (0, s\<lparr> UartBuffer := (UartBuffer s)[nat (UartBufferNextFree s) := c],
               UartBufferNextFree := next_index (UartBufferNextFree s), TXCIE0 := True \<rparr>))"
  by (auto simp: UART0_Putchar_append_def UART_BUFFER_SIZE_def next_index_def buffer_full_def
      Let_def)

lemma append_wf: "uart_wf s \<Longrightarrow> uart_wf (snd (UART0_Putchar_append c s))"
  using next_index_range [of "UartBufferNextFree s"]
  by (simp add: append_cases uart_wf_def indices_in_range_def)

subsection \<open>Runs of the interleaved driver\<close>

lemma step_wf:
  assumes "tx_step cfg cfg'" and "uart_wf (fst cfg)"
  shows "uart_wf (fst cfg')"
  using assms
proof (induction rule: tx_step.induct)
  case (step_append s c k)
  then show ?case by (simp add: append_wf)
next
  case (step_interrupt s k)
  then show ?case by (simp add: vect_wf)
qed (simp_all add: uart_wf_def indices_in_range_def)

lemma reachable_wf: "reachable cfg \<Longrightarrow> uart_wf (fst cfg)"
proof (induction rule: reachable.induct)
  case (reach_init s0)
  then show ?case using init_inv [of s0] by (simp add: uart_inv_def)
next
  case (reach_step cfg cfg')
  then show ?case using step_wf by blast
qed

lemma reachable_run: "tx_step\<^sup>*\<^sup>* cfg cfg' \<Longrightarrow> reachable cfg \<Longrightarrow> reachable cfg'"
  by (induction rule: rtranclp_induct) (auto intro: reach_step)

lemma body_run: "tx_step\<^sup>*\<^sup>* (s, Test c # k) (snd (UART0_Putchar_body c s), k)"
proof (cases "UartSendingInProgress s = 0")
  case True
  have "tx_step (s, Test c # k) (s, SetFlag c # k)"
    using True by (rule step_test_idle)
  moreover have "tx_step (s, SetFlag c # k) (s\<lparr> UartSendingInProgress := 1 \<rparr>, WriteUDR c # k)"
    by (rule step_set_flag)
  moreover have "tx_step (s\<lparr> UartSendingInProgress := 1 \<rparr>, WriteUDR c # k)
      (s\<lparr> UartSendingInProgress := 1 \<rparr>\<lparr> UDR0 := UDR0 (s\<lparr> UartSendingInProgress := 1 \<rparr>) @ [c] \<rparr>, k)"
    by (rule step_write)
  ultimately have "tx_step\<^sup>*\<^sup>* (s, Test c # k)
      (s\<lparr> UartSendingInProgress := 1 \<rparr>\<lparr> UDR0 := UDR0 (s\<lparr> UartSendingInProgress := 1 \<rparr>) @ [c] \<rparr>, k)"
    by (meson rtranclp.rtrancl_into_rtrancl rtranclp.rtrancl_refl)
  then show ?thesis using True by (simp add: body_cases)
next
  case False
  have "tx_step (s, Test c # k) (s, Append c # k)"
    using False by (rule step_test_busy)
  moreover have "tx_step (s, Append c # k) (snd (UART0_Putchar_append c s), k)"
    by (rule step_append)
  ultimately have "tx_step\<^sup>*\<^sup>* (s, Test c # k) (snd (UART0_Putchar_append c s), k)"
    by (meson rtranclp.rtrancl_into_rtrancl rtranclp.rtrancl_refl)
  then show ?thesis using False by (simp add: body_append)
qed

lemma tx_interrupt_run: "tx_step\<^sup>*\<^sup>* (s, k) (tx_interrupt fire s, k)"
proof (cases "fire \<and> TXCIE0 s")
  case True
  then have "tx_step (s, k) (USART_TX_vect s, k)" by (simp add: step_interrupt)
  then show ?thesis using True by (simp add: tx_interrupt_def)
next
  case False
  then show ?thesis by (auto simp: tx_interrupt_def)
qed

lemma putchar_irq_run: "tx_step\<^sup>*\<^sup>* (s, []) (snd (UART0_Putchar_irq fire c s), [])"
proof (cases "c = 0x0A")
  case True
  let ?s1 = "snd (UART0_Putchar_body 0x0D s)"
  have "tx_step (s, []) (s, if c = 0x0A then [Test 0x0D, Test c] else [Test c])"
    by (rule step_call)
  then have "tx_step\<^sup>*\<^sup>* (s, []) (s, [Test 0x0D, Test 0x0A])" using True by simp
  also have "tx_step\<^sup>*\<^sup>* (s, [Test 0x0D, Test 0x0A]) (?s1, [Test 0x0A])"
    by (rule body_run)
  also have "tx_step\<^sup>*\<^sup>* (?s1, [Test 0x0A]) (tx_interrupt fire ?s1, [Test 0x0A])"
    by (rule tx_interrupt_run)
  also have "tx_step\<^sup>*\<^sup>* (tx_interrupt fire ?s1, [Test 0x0A])
      (snd (UART0_Putchar_body 0x0A (tx_interrupt fire ?s1)), [])"
    by (rule body_run)
  finally show ?thesis using True by (simp add: UART0_Putchar_irq_def UART0_Putchar_other)
next
  case False
  have "tx_step (s, []) (s, if c = 0x0A then [Test 0x0D, Test c] else [Test c])"
    by (rule step_call)
  then have "tx_step\<^sup>*\<^sup>* (s, []) (s, [Test c])" using False by simp
  also have "tx_step\<^sup>*\<^sup>* (s, [Test c]) (snd (UART0_Putchar_body c s), [])"
    by (rule body_run)
  finally show ?thesis using False by (simp add: UART0_Putchar_irq_def)
qed

lemma putchar_run: "tx_step\<^sup>*\<^sup>* (s, []) (snd (UART0_Putchar c s), [])"
  using putchar_irq_run [of s False c] by (simp add: UART0_Putchar_irq_False)

lemma reachable_putchar: "reachable (s, []) \<Longrightarrow> reachable (snd (UART0_Putchar c s), [])"
  using putchar_run by (rule reachable_run)

lemma reachable_putchars:
  "reachable (s, []) \<Longrightarrow> reachable (snd (UART0_Putchars cs s), [])"
proof (induction cs arbitrary: s)
  case Nil
  then show ?case by simp
next
  case (Cons c cs)
  have "reachable (snd (UART0_Putchar c s), [])"
    using Cons.prems by (rule reachable_putchar)
  then have "reachable (snd (UART0_Putchars cs (snd (UART0_Putchar c s))), [])"
    by (rule Cons.IH)
  then show ?case by (simp add: split_beta Let_def)
qed

lemma reachable_initial: "reachable (init_iuart power_on, [])"
  by (rule reach_init) (simp add: power_on_def)

lemma reachable_full_state: "reachable (full_state, [])"
  unfolding full_state_def by (rule reachable_putchars [OF reachable_initial])

lemma full_state_wf: "uart_wf full_state"
  using reachable_wf [OF reachable_full_state] by simp

text \<open>The interrupt handler running between the test of line 66 and the mask of line
  76 is a run of the driver: it leaves a byte queued with no transmission in progress.\<close>

lemma race_state_reachable:
  "reachable (race_state, []) \<and> UartSendingInProgress race_state = 0 \<and>
   UartBufferNextFree race_state = 1 \<and> UartBufferNextByteToSend race_state = 0"
proof -
  let ?s1 = "snd (UART0_Putchar 0x61 (init_iuart power_on))"
  have busy: "UartSendingInProgress ?s1 \<noteq> 0" by code_simp
  have en: "TXCIE0 ?s1" by code_simp
  have r1: "reachable (?s1, [])" using reachable_initial by (rule reachable_putchar)
  have "tx_step (?s1, []) (?s1, if (0x62::byte) = 0x0A then [Test 0x0D, Test 0x62] else [Test 0x62])"
    by (rule step_call)
  then have "tx_step (?s1, []) (?s1, [Test 0x62])" by simp
  then have r2: "reachable (?s1, [Test 0x62])" using r1 reach_step by blast
  have r3: "reachable (?s1, [Append 0x62])"
    using r2 step_test_busy [OF busy] reach_step by blast
  have r4: "reachable (USART_TX_vect ?s1, [Append 0x62])"
    using r3 step_interrupt [OF en] reach_step by blast
  have "reachable (snd (UART0_Putchar_append 0x62 (USART_TX_vect ?s1)), [])"
    using r4 step_append reach_step by blast
  then have "reachable (race_state, [])" by (simp add: race_state_def)
  moreover have "UartSendingInProgress race_state = 0" by code_simp
  moreover have "UartBufferNextFree race_state = 1" by code_simp
  moreover have "UartBufferNextByteToSend race_state = 0" by code_simp
  ultimately show ?thesis by simp
qed

text \<open>The same interrupt inside the carriage-return call of a line feed: the line feed
  is written to \<open>UDR0\<close> while its carriage return still waits in the ring buffer.\<close>

lemma newline_race_reachable:
  "reachable (newline_race_state, []) \<and> UDR0 newline_race_state = [0x61, 0x0A] \<and>
   queued newline_race_state = [0x0D]"
proof -
  let ?s1 = "snd (UART0_Putchar 0x61 (init_iuart power_on))"
  let ?s2 = "snd (UART0_Putchar_append 0x0D (USART_TX_vect ?s1))"
  have busy: "UartSendingInProgress ?s1 \<noteq> 0" by code_simp
  have en: "TXCIE0 ?s1" by code_simp
  have r1: "reachable (?s1, [])" using reachable_initial by (rule reachable_putchar)
  have "tx_step (?s1, []) (?s1, if (0x0A::byte) = 0x0A then [Test 0x0D, Test 0x0A] else [Test 0x0A])"
    by (rule step_call)
  then have "tx_step (?s1, []) (?s1, [Test 0x0D, Test 0x0A])" by simp
  then have r2: "reachable (?s1, [Test 0x0D, Test 0x0A])" using r1 reach_step by blast
  have r3: "reachable (?s1, [Append 0x0D, Test 0x0A])"
    using r2 step_test_busy [OF busy] reach_step by blast
  have r4: "reachable (USART_TX_vect ?s1, [Append 0x0D, Test 0x0A])"
    using r3 step_interrupt [OF en] reach_step by blast
  have r5: "reachable (?s2, [Test 0x0A])"
    using r4 step_append reach_step by blast
  have "reachable (snd (UART0_Putchar_body 0x0A ?s2), [])"
    using body_run r5 by (rule reachable_run)
  then have "reachable (newline_race_state, [])" by (simp add: newline_race_state_def)
  moreover have "UDR0 newline_race_state = [0x61, 0x0A]" by code_simp
  moreover have "queued newline_race_state = [0x0D]" by code_simp
  ultimately show ?thesis by simp
qed

subsection \<open>The queue and what is emitted\<close>

lemma length_queued:
  assumes "uart_wf s"
  shows "length (queued s) =
     (if UartBufferNextByteToSend s \<le> UartBufferNextFree s
      then nat (UartBufferNextFree s - UartBufferNextByteToSend s)
      else nat (256 - UartBufferNextByteToSend s + UartBufferNextFree s))"
  using assms
  by (auto simp: queued_def length_ring_slice uart_wf_def indices_in_range_def UART_BUFFER_SIZE_def
      nat_diff_distrib nat_add_distrib)

lemma full_iff_queued: "uart_wf s \<Longrightarrow> buffer_full s \<longleftrightarrow> length (queued s) = 255"
  by (auto simp: length_queued buffer_full_def next_index_def uart_wf_def indices_in_range_def
      UART_BUFFER_SIZE_def split: if_splits)

lemma empty_iff_queued:
  "uart_wf s \<Longrightarrow> queued s = [] \<longleftrightarrow> UartBufferNextByteToSend s = UartBufferNextFree s"
  using length_queued [of s]
  by (auto simp: uart_wf_def indices_in_range_def UART_BUFFER_SIZE_def split: if_splits)

lemma full_iff_free_slots: "uart_wf s \<Longrightarrow> buffer_full s \<longleftrightarrow> free_slots s = 0"
  using length_queued [of s]
  by (auto simp: full_iff_queued free_slots_def uart_wf_def indices_in_range_def
      UART_BUFFER_SIZE_def split: if_splits)

lemma body_emitted:
  assumes "uart_inv s" "\<not> buffer_full s"
  shows "fst (UART0_Putchar_body c s) = 0 \<and>
         emitted (snd (UART0_Putchar_body c s)) = emitted s @ [c]"
proof (cases "UartSendingInProgress s = 0")
  case True
  with assms(1) have "queued s = []"
    by (simp add: uart_inv_def empty_iff_queued)
  moreover have "queued (s\<lparr> UartSendingInProgress := 1, UDR0 := UDR0 s @ [c] \<rparr>) = queued s"
    by (simp add: queued_def)
  ultimately show ?thesis using True
    by (simp add: body_cases emitted_def)
next
  case False
  with assms show ?thesis
    by (simp add: body_cases emitted_def queued_enqueue uart_inv_def)
qed

lemma body_free_slots:
  assumes "uart_wf s" "\<not> buffer_full s"
  shows "free_slots (snd (UART0_Putchar_body c s)) =
         (if UartSendingInProgress s = 0 then free_slots s else free_slots s - 1)"
proof (cases "UartSendingInProgress s = 0")
  case True
  have "queued (s\<lparr> UartSendingInProgress := 1, UDR0 := UDR0 s @ [c] \<rparr>) = queued s"
    by (simp add: queued_def)
  then show ?thesis using True by (simp add: body_cases free_slots_def)
next
  case False
  with assms show ?thesis
    by (simp add: body_cases free_slots_def queued_enqueue)
qed

text \<open>A byte accepted in a well-formed state goes to \<open>UDR0\<close> when the driver is idle
  and to the end of the queue otherwise.\<close>

lemma body_accepts:
  assumes "uart_wf s" "\<not> buffer_full s"
  shows "fst (UART0_Putchar_body c s) = 0 \<and>
         UartSendingInProgress (snd (UART0_Putchar_body c s)) \<noteq> 0 \<and>
         UDR0 (snd (UART0_Putchar_body c s)) =
           UDR0 s @ (if UartSendingInProgress s = 0 then [c] else []) \<and>
         queued (snd (UART0_Putchar_body c s)) =
           queued s @ (if UartSendingInProgress s = 0 then [] else [c])"
proof (cases "UartSendingInProgress s = 0")
  case True
  then show ?thesis by (simp add: body_cases queued_def)
next
  case False
  with assms show ?thesis by (simp add: body_cases queued_enqueue)
qed

lemma USART_TX_vect_sends_oldest:
  assumes "uart_wf s" "UartBufferNextByteToSend s \<noteq> UartBufferNextFree s"
  shows "queued s = UartBuffer s ! nat (UartBufferNextByteToSend s) # queued (USART_TX_vect s) \<and>
         UDR0 (USART_TX_vect s) = UDR0 s @ [UartBuffer s ! nat (UartBufferNextByteToSend s)]"
proof -
  let ?h = "nat (UartBufferNextFree s)" and ?t = "nat (UartBufferNextByteToSend s)"
  let ?xs = "UartBuffer s"
  have r: "0 \<le> UartBufferNextFree s" "UartBufferNextFree s < 256"
    "0 \<le> UartBufferNextByteToSend s" "UartBufferNextByteToSend s < 256" "length ?xs = 256"
    using assms(1) by (simp_all add: uart_wf_def indices_in_range_def UART_BUFFER_SIZE_def)
  have n: "nat (next_index (UartBufferNextByteToSend s)) = (if Suc ?t = length ?xs then 0 else Suc ?t)"
    using r by (simp add: nat_next_index)
  have "?h < length ?xs" "?t < length ?xs" "?t \<noteq> ?h"
    using r assms(2) by (simp_all add: eq_nat_nat_iff)
  then have "ring_slice ?t ?h ?xs = ?xs ! ?t # ring_slice (if Suc ?t = length ?xs then 0 else Suc ?t) ?h ?xs"
    by (rule ring_slice_dequeue)
  then show ?thesis using assms(2) by (simp add: queued_def vect_cases n)
qed

lemma USART_TX_vect_emitted: "uart_wf s \<Longrightarrow> emitted (USART_TX_vect s) = emitted s"
proof (cases "UartBufferNextByteToSend s = UartBufferNextFree s")
  case True
  then show ?thesis by (simp add: vect_cases emitted_def queued_def)
next
  case False
  assume "uart_wf s"
  then show ?thesis using USART_TX_vect_sends_oldest [OF _ False] by (simp add: emitted_def)
qed

lemma USART_TX_vect_free_slots: "uart_wf s \<Longrightarrow> free_slots s \<le> free_slots (USART_TX_vect s)"
proof (cases "UartBufferNextByteToSend s = UartBufferNextFree s")
  case True
  then show ?thesis by (simp add: vect_cases free_slots_def queued_def)
next
  case False
  assume "uart_wf s"
  then have "length (queued s) = Suc (length (queued (USART_TX_vect s)))"
    using USART_TX_vect_sends_oldest [OF _ False] by (metis length_Cons)
  then show ?thesis by (simp add: free_slots_def)
qed

lemma tx_interrupt_emitted: "uart_wf s \<Longrightarrow> emitted (tx_interrupt fire s) = emitted s"
  by (simp add: tx_interrupt_def USART_TX_vect_emitted)

lemma tx_interrupt_free_slots: "uart_wf s \<Longrightarrow> free_slots s \<le> free_slots (tx_interrupt fire s)"
  by (simp add: tx_interrupt_def USART_TX_vect_free_slots)

lemma drain_queue:
  "uart_wf s \<Longrightarrow> length (queued s) = n \<Longrightarrow>
   UDR0 ((USART_TX_vect ^^ n) s) = emitted s \<and> queued ((USART_TX_vect ^^ n) s) = []"
proof (induction n arbitrary: s)
  case 0
  then show ?case by (simp add: emitted_def)
next
  case (Suc n)
  from Suc.prems have ne: "UartBufferNextByteToSend s \<noteq> UartBufferNextFree s"
    using empty_iff_queued [of s] by auto
  note step = USART_TX_vect_sends_oldest [OF Suc.prems(1) ne]
  have "length (queued (USART_TX_vect s)) = n"
    using step Suc.prems(2) by (metis length_Cons nat.inject)
  then have "UDR0 ((USART_TX_vect ^^ n) (USART_TX_vect s)) = emitted (USART_TX_vect s) \<and>
      queued ((USART_TX_vect ^^ n) (USART_TX_vect s)) = []"
    using Suc.IH [OF vect_wf [OF Suc.prems(1)]] by simp
  then show ?case
    by (simp add: funpow_swap1 USART_TX_vect_emitted [OF Suc.prems(1)])
qed

subsection \<open>A burst of calls from initialisation\<close>

lemma burst_body:
  assumes "burst_state k s" "k < 256"
  shows "fst (UART0_Putchar_body c s) = 0 \<and> burst_state (Suc k) (snd (UART0_Putchar_body c s))"
proof (cases "k = 0")
  case True
  with assms show ?thesis by (simp add: burst_state_def body_cases)
next
  case False
  with assms have "\<not> buffer_full s" "UartSendingInProgress s \<noteq> 0"
    "next_index (UartBufferNextFree s) = int k"
    by (auto simp: burst_state_def buffer_full_def next_index_def UART_BUFFER_SIZE_def)
  with assms show ?thesis by (simp add: burst_state_def body_cases)
qed

lemma burst_putchar:
  assumes "burst_state k s" "k + (if c = 0x0A then 2 else 1) \<le> 256"
  shows "fst (UART0_Putchar c s) = 0 \<and>
         burst_state (k + (if c = 0x0A then 2 else 1)) (snd (UART0_Putchar c s))"
proof (cases "c = 0x0A")
  case True
  from assms True have "burst_state (Suc k) (snd (UART0_Putchar_body 0x0D s))"
    using burst_body [of k s "0x0D"] by simp
  with assms True show ?thesis
    using burst_body [of "Suc k" "snd (UART0_Putchar_body 0x0D s)" "0x0A"]
    by (simp add: putchar_cases)
next
  case False
  with assms show ?thesis
    using burst_body [of k s c] by (simp add: putchar_cases)
qed

lemma expanded_length_Cons:
  "expanded_length (c # cs) = (if c = 0x0A then 2 else 1) + expanded_length cs"
  by (simp add: expanded_length_def)

lemma burst_putchars:
  "burst_state k s \<Longrightarrow> k + expanded_length cs \<le> 256 \<Longrightarrow>
   fst (UART0_Putchars cs s) = replicate (length cs) 0"
proof (induction cs arbitrary: k s)
  case Nil
  then show ?case by simp
next
  case (Cons c cs)
  let ?k = "k + (if c = 0x0A then 2 else 1)"
  have le: "?k \<le> 256" "?k + expanded_length cs \<le> 256"
    using Cons.prems(2) by (simp_all add: expanded_length_Cons)
  have step: "fst (UART0_Putchar c s) = 0" "burst_state ?k (snd (UART0_Putchar c s))"
    using burst_putchar [OF Cons.prems(1) le(1)] by simp_all
  have "fst (UART0_Putchars cs (snd (UART0_Putchar c s))) = replicate (length cs) 0"
    using Cons.IH [OF step(2) le(2)] .
  then show ?case using step(1)
    by (simp add: split_beta Let_def)
qed

lemma burst_init: "burst_state 0 (init_iuart s0)"
  by (simp add: burst_state_def init_iuart_def)

subsection \<open>The claims about the transmit engine\<close>

text \<open>
  Claim C2. In every state where a transmission is in progress and the ring buffer is
  full, \<open>UART0_Putchar c\<close> returns \<open>EOF\<close> (the buffer-full error) and leaves the
  logical queue state as it was: the write index is back at its value before the call,
  the read index and the in-progress flag are untouched, nothing was written to
  \<open>UDR0\<close>, and the queued bytes are the same, so \<open>c\<close> is neither transmitted nor
  queued. The call is taken as a whole, with no interrupt in its course. This holds for
  the line feed too, whose carriage return is dropped the same way.
\<close>

theorem putchar_full_rolls_back:
  assumes "UartSendingInProgress s \<noteq> 0" and "buffer_full s"
  shows "fst (UART0_Putchar c s) = EOF \<and>
         UartBufferNextFree (snd (UART0_Putchar c s)) = UartBufferNextFree s \<and>
         UartBufferNextByteToSend (snd (UART0_Putchar c s)) = UartBufferNextByteToSend s \<and>
         UartSendingInProgress (snd (UART0_Putchar c s)) = UartSendingInProgress s \<and>
         UDR0 (snd (UART0_Putchar c s)) = UDR0 s \<and>
         queued (snd (UART0_Putchar c s)) = queued s"
proof -
  have one: "UART0_Putchar_body d s' =
      (EOF, s'\<lparr> UartBuffer := (UartBuffer s')[nat (UartBufferNextFree s') := d], TXCIE0 := True \<rparr>)"
    if "UartSendingInProgress s' \<noteq> 0" "buffer_full s'" for d s'
    using that by (simp add: body_cases)
  let ?s1 = "s\<lparr> UartBuffer := (UartBuffer s)[nat (UartBufferNextFree s) := 0x0D], TXCIE0 := True \<rparr>"
  have s1: "UartSendingInProgress ?s1 \<noteq> 0" "buffer_full ?s1"
    using assms by (simp_all add: buffer_full_def)
  show ?thesis
  proof (cases "c = 0x0A")
    case True
    have "UART0_Putchar c s = UART0_Putchar_body 0x0A ?s1"
      using True by (simp add: putchar_cases one [OF assms])
    then show ?thesis
      by (simp add: one [OF s1] queued_def ring_slice_update_head)
  next
    case False
    then have "UART0_Putchar c s = UART0_Putchar_body c s"
      by (simp add: putchar_cases)
    then show ?thesis
      by (simp add: one [OF assms] queued_def ring_slice_update_head)
  qed
qed

theorem putchar_full_rolls_back_witness:
  "UartSendingInProgress full_state \<noteq> 0 \<and> buffer_full full_state \<and>
   fst (UART0_Putchar 0x41 full_state) = EOF \<and>
   UartBufferNextFree (snd (UART0_Putchar 0x41 full_state)) = UartBufferNextFree full_state \<and>
   UartBufferNextByteToSend (snd (UART0_Putchar 0x41 full_state)) = UartBufferNextByteToSend full_state \<and>
   UartSendingInProgress (snd (UART0_Putchar 0x41 full_state)) = UartSendingInProgress full_state \<and>
   UDR0 (snd (UART0_Putchar 0x41 full_state)) = UDR0 full_state \<and>
   queued (snd (UART0_Putchar 0x41 full_state)) = queued full_state"
proof -
  have busy: "UartSendingInProgress full_state \<noteq> 0" by code_simp
  have full: "buffer_full full_state" by code_simp
  show ?thesis
    using putchar_full_rolls_back [OF busy full, of "0x41"] busy full by simp
qed

text \<open>
  Claim C3, as amended. From the initialised state and with no transmit-complete
  interrupt in between, a sequence of \<open>UART0_Putchar\<close> calls that submits at most 255
  bytes, each line feed counted twice for the carriage return sent before it, has every
  call return 0: none reports the buffer-full error.
\<close>

theorem no_buffer_full_counting_expansion:
  assumes "expanded_length cs \<le> 255"
  shows "fst (UART0_Putchars cs (init_iuart s0)) = replicate (length cs) 0"
  using burst_putchars [OF burst_init, of cs s0] assms by simp

theorem no_buffer_full_counting_expansion_witness:
  "expanded_length [0x41, 0x0A] \<le> 255 \<and>
   fst (UART0_Putchars [0x41, 0x0A] (init_iuart power_on)) = replicate (length [0x41 :: byte, 0x0A]) 0"
  using no_buffer_full_counting_expansion [of "[0x41, 0x0A]" power_on]
  by (simp add: expanded_length_def)

text \<open>
  Claim C3 as stated counts the bytes passed to the calls. 129 calls with a line feed
  pass 129 bytes, which is at most 255, and the last call returns \<open>EOF\<close>: the 128
  calls before it have emitted 256 bytes.
\<close>

theorem line_feeds_overflow_counterexample:
  "length (replicate 129 (0x0A :: byte)) \<le> 255 \<and>
   last (fst (UART0_Putchars (replicate 129 0x0A) (init_iuart power_on))) = EOF"
  by code_simp

lemma interrupts_keep:
  "uart_inv s \<Longrightarrow>
   uart_inv ((tx_interrupt True ^^ n) s) \<and> emitted ((tx_interrupt True ^^ n) s) = emitted s \<and>
   free_slots s \<le> free_slots ((tx_interrupt True ^^ n) s)"
proof (induction n)
  case 0
  then show ?case by simp
next
  case (Suc n)
  let ?s = "(tx_interrupt True ^^ n) s"
  have ih: "uart_inv ?s" "emitted ?s = emitted s" "free_slots s \<le> free_slots ?s"
    using Suc by simp_all
  have wf: "uart_wf ?s" using ih(1) by (simp add: uart_inv_def)
  show ?case
    using tx_interrupt_inv [OF ih(1), of True] tx_interrupt_emitted [OF wf, of True]
      tx_interrupt_free_slots [OF wf, of True] ih(2,3)
    by simp
qed

text \<open>
  Claim C4, as amended. In a well-formed state whose ring buffer can take two more
  bytes, \<open>UART0_Putchar('\n')\<close> returns 0 and emits exactly two bytes toward the
  hardware, the carriage return first and the line feed second: when the driver is idle
  the carriage return is written to \<open>UDR0\<close> at once and the line feed is queued behind
  whatever waits in the ring buffer, otherwise both are queued, in this order, behind
  what waits there. This is the call with no transmit-complete interrupt between a test
  of line 66 and the statement that follows it: it is proved for the call run as a
  whole, for the call with one interrupt between the carriage return and the line feed,
  and for any number of interrupts there.
\<close>

theorem putchar_newline_expansion:
  assumes "uart_wf s" and "2 \<le> free_slots s"
  shows "fst (UART0_Putchar 0x0A s) = 0 \<and>
         emitted (snd (UART0_Putchar 0x0A s)) =
           (if UartSendingInProgress s = 0 then UDR0 s @ [0x0D] @ queued s @ [0x0A]
            else UDR0 s @ queued s @ [0x0D, 0x0A]) \<and>
         fst (UART0_Putchar_irq fire 0x0A s) = 0 \<and>
         emitted (snd (UART0_Putchar_irq fire 0x0A s)) =
           (if UartSendingInProgress s = 0 then UDR0 s @ [0x0D] @ queued s @ [0x0A]
            else UDR0 s @ queued s @ [0x0D, 0x0A]) \<and>
         fst (UART0_Putchar_body 0x0A ((tx_interrupt True ^^ n) (snd (UART0_Putchar 0x0D s)))) = 0 \<and>
         emitted (snd (UART0_Putchar_body 0x0A
                         ((tx_interrupt True ^^ n) (snd (UART0_Putchar 0x0D s))))) =
           (if UartSendingInProgress s = 0 then UDR0 s @ [0x0D] @ queued s @ [0x0A]
            else UDR0 s @ queued s @ [0x0D, 0x0A])"
proof -
  let ?s1 = "snd (UART0_Putchar_body 0x0D s)"
  let ?out = "if UartSendingInProgress s = 0 then UDR0 s @ [0x0D] @ queued s @ [0x0A]
              else UDR0 s @ queued s @ [0x0D, 0x0A]"
  have nf: "\<not> buffer_full s"
    using assms by (simp add: full_iff_free_slots)
  note cr = body_accepts [OF assms(1) nf, of "0x0D"]
  have e1: "emitted ?s1 @ [0x0A] = ?out"
    using cr by (simp add: emitted_def)
  have wf1: "uart_wf ?s1" using assms(1) by (rule body_wf)
  have inv1: "uart_inv ?s1" using wf1 cr by (simp add: uart_inv_def)
  have f1: "1 \<le> free_slots ?s1"
    using assms(2) by (auto simp: body_free_slots [OF assms(1) nf])
  have after: "fst (UART0_Putchar_body 0x0A s2) = 0 \<and>
      emitted (snd (UART0_Putchar_body 0x0A s2)) = ?out"
    if "uart_inv s2" "emitted s2 = emitted ?s1" "free_slots ?s1 \<le> free_slots s2" for s2
  proof -
    have "1 \<le> free_slots s2" using f1 that(3) by simp
    then have "\<not> buffer_full s2"
      using that(1) by (simp add: full_iff_free_slots uart_inv_def)
    then show ?thesis
      using body_emitted [OF that(1), of "0x0A"] that(2) e1 by simp
  qed
  have whole: "fst (UART0_Putchar_body 0x0A ?s1) = 0 \<and>
      emitted (snd (UART0_Putchar_body 0x0A ?s1)) = ?out"
    using after [of ?s1] inv1 by simp
  have one: "fst (UART0_Putchar_body 0x0A (tx_interrupt fire ?s1)) = 0 \<and>
      emitted (snd (UART0_Putchar_body 0x0A (tx_interrupt fire ?s1))) = ?out"
    using after [of "tx_interrupt fire ?s1"] tx_interrupt_inv [OF inv1, of fire]
      tx_interrupt_emitted [OF wf1, of fire] tx_interrupt_free_slots [OF wf1, of fire]
    by simp
  have many: "fst (UART0_Putchar_body 0x0A ((tx_interrupt True ^^ n) ?s1)) = 0 \<and>
      emitted (snd (UART0_Putchar_body 0x0A ((tx_interrupt True ^^ n) ?s1))) = ?out"
    using after [of "(tx_interrupt True ^^ n) ?s1"] interrupts_keep [OF inv1, of n] by simp
  have cr_call: "UART0_Putchar 0x0D s = UART0_Putchar_body 0x0D s"
    by (simp add: UART0_Putchar_other)
  show ?thesis
    using whole one many
    by (simp only: UART0_Putchar_LF UART0_Putchar_irq_def cr_call Let_def) simp
qed

theorem putchar_newline_expansion_witness:
  "uart_wf race_state \<and> 2 \<le> free_slots race_state \<and>
   UartSendingInProgress race_state = 0 \<and>
   fst (UART0_Putchar 0x0A race_state) = 0 \<and>
   emitted (snd (UART0_Putchar 0x0A race_state)) =
     UDR0 race_state @ [0x0D] @ queued race_state @ [0x0A] \<and>
   emitted (snd (UART0_Putchar 0x0A race_state)) = [0x61, 0x0D, 0x62, 0x0A]"
proof -
  have wf: "uart_wf race_state"
    using race_state_reachable reachable_wf [of "(race_state, [])"] by simp
  have f: "2 \<le> free_slots race_state" by code_simp
  have idle: "UartSendingInProgress race_state = 0" using race_state_reachable by simp
  have u: "UDR0 race_state = [0x61]" by code_simp
  have q: "queued race_state = [0x62]" by code_simp
  show ?thesis
    using putchar_newline_expansion [OF wf f, of True 0] wf f idle by (simp add: u q)
qed

text \<open>
  Claim C4 as stated holds in no state where the buffer is full and a transmission is in
  progress: there the call emits nothing and returns \<open>EOF\<close>.
\<close>

theorem newline_on_full_buffer_counterexample:
  "fst (UART0_Putchar 0x0A full_state) = EOF \<and>
   emitted (snd (UART0_Putchar 0x0A full_state)) = emitted full_state"
  by code_simp

text \<open>
  Claim C5. In every configuration reachable from initialisation by any interleaving of
  the statements of \<open>UART0_Putchar\<close> calls with firings of the transmit-complete
  interrupt, the write index and the read index both lie in
  \<open>[0, UART_BUFFER_SIZE)\<close>, and the buffer is never at once empty (indices equal, no
  transmission in progress) and full (advancing the write index would reach the read
  index). The interrupt may fire wherever it is enabled, also between the test of line
  66 and the statement that follows it.
\<close>

theorem reachable_indices_in_range:
  "reachable (s, k) \<Longrightarrow> indices_in_range s \<and> \<not> (buffer_empty s \<and> buffer_full s)"
proof
  assume "reachable (s, k)"
  then show "indices_in_range s"
    using reachable_wf [of "(s, k)"] by (simp add: uart_wf_def)
  show "\<not> (buffer_empty s \<and> buffer_full s)"
    using next_index_neq [of "UartBufferNextFree s"]
    by (auto simp: buffer_empty_def buffer_full_def)
qed

theorem reachable_indices_in_range_witness:
  "reachable (race_state, []) \<and> indices_in_range race_state \<and>
   \<not> (buffer_empty race_state \<and> buffer_full race_state)"
  using reachable_indices_in_range [of race_state "[]"] race_state_reachable by simp

text \<open>
  Claim C9. When \<open>UART0_Putchar\<close> is called with the line feed, the status of the
  carriage-return call is thrown away and the returned status is that of queueing the
  line feed alone. In a well-formed state with a transmission in progress and the buffer
  full, the carriage return is dropped (its call returns \<open>EOF\<close> and emits nothing); when
  the transmit-complete interrupt then fires before the line feed is queued, a slot is
  free again, the line feed is queued without its carriage return, and the call returns
  0.
\<close>

theorem putchar_newline_ignores_cr_status:
  assumes "uart_wf s" and "UartSendingInProgress s \<noteq> 0" and "buffer_full s"
  shows "fst (UART0_Putchar 0x0D s) = EOF \<and>
         emitted (snd (UART0_Putchar 0x0D s)) = emitted s \<and>
         fst (UART0_Putchar_irq True 0x0A s) = 0 \<and>
         emitted (snd (UART0_Putchar_irq True 0x0A s)) = emitted s @ [0x0A] \<and>
         fst (UART0_Putchar_irq fire 0x0A s) =
           fst (UART0_Putchar_body 0x0A (tx_interrupt fire (snd (UART0_Putchar 0x0D s))))"
proof -
  let ?s1 = "snd (UART0_Putchar 0x0D s)"
  let ?s2 = "USART_TX_vect ?s1"
  have s1: "UART0_Putchar 0x0D s =
      (EOF, s\<lparr> UartBuffer := (UartBuffer s)[nat (UartBufferNextFree s) := 0x0D], TXCIE0 := True \<rparr>)"
    using assms by (simp add: UART0_Putchar_other body_cases)
  have e1: "emitted ?s1 = emitted s"
    by (simp add: s1 emitted_def queued_def ring_slice_update_head)
  have wf1: "uart_wf ?s1" using assms(1) by (rule putchar_wf)
  have ne: "UartBufferNextByteToSend ?s1 \<noteq> UartBufferNextFree ?s1"
    using assms(3) next_index_neq [of "UartBufferNextFree s"] by (auto simp: s1 buffer_full_def)
  have irq: "tx_interrupt True ?s1 = ?s2"
    by (simp add: tx_interrupt_def s1)
  have wf2: "uart_wf ?s2" using wf1 by (rule vect_wf)
  have e2: "emitted ?s2 = emitted s"
    using USART_TX_vect_emitted [OF wf1] e1 by simp
  have busy2: "UartSendingInProgress ?s2 \<noteq> 0"
    using ne by (simp add: vect_cases)
  have r: "0 \<le> UartBufferNextFree s" "UartBufferNextFree s < UART_BUFFER_SIZE"
    "0 \<le> UartBufferNextByteToSend s" "UartBufferNextByteToSend s < UART_BUFFER_SIZE"
    using assms(1) by (simp_all add: uart_wf_def indices_in_range_def)
  have "next_index (UartBufferNextFree s) \<noteq> next_index (UartBufferNextByteToSend s)"
    using next_index_inj [OF r] ne by (auto simp: s1)
  then have nf2: "\<not> buffer_full ?s2"
    using ne by (simp add: vect_cases buffer_full_def s1)
  have inv2: "uart_inv ?s2" using wf2 busy2 by (simp add: uart_inv_def)
  have "fst (UART0_Putchar_body 0x0A ?s2) = 0 \<and>
        emitted (snd (UART0_Putchar_body 0x0A ?s2)) = emitted ?s2 @ [0x0A]"
    using inv2 nf2 by (rule body_emitted)
  then show ?thesis
    using e1 e2 irq by (simp add: UART0_Putchar_irq_def) (simp add: s1)
qed

theorem putchar_newline_ignores_cr_status_witness:
  "uart_wf full_state \<and> UartSendingInProgress full_state \<noteq> 0 \<and> buffer_full full_state \<and>
   fst (UART0_Putchar 0x0D full_state) = EOF \<and>
   emitted (snd (UART0_Putchar 0x0D full_state)) = emitted full_state \<and>
   fst (UART0_Putchar_irq True 0x0A full_state) = 0 \<and>
   emitted (snd (UART0_Putchar_irq True 0x0A full_state)) = emitted full_state @ [0x0A]"
proof -
  have wf: "uart_wf full_state"
    by (rule full_state_wf)
  have busy: "UartSendingInProgress full_state \<noteq> 0" by code_simp
  have full: "buffer_full full_state" by code_simp
  show ?thesis
    using putchar_newline_ignores_cr_status [OF wf busy full, of True] wf busy full by simp
qed

section \<open>Properties of the line editor\<close>

lemma printable_not_control:
  "printable c \<Longrightarrow> c \<noteq> 0x0D \<and> c \<noteq> 0x0A \<and> c \<noteq> 0x09"
  by (auto simp: printable_def)

lemma iteration_printable:
  assumes "printable c"
  shows "getchar_iteration (rx_ok c) b cp tx =
     (if cp = RX_BUFSIZE - 1 then Continue b cp (snd (UART0_Putchar 0x07 tx))
      else Continue (b[cp := c]) (cp + 1) (snd (UART0_Putchar c tx)))"
  using assms printable_not_control [OF assms]
  by (simp add: getchar_iteration_def rx_ok_def)



lemma kill_word_at_space:
  "0 < cp \<Longrightarrow> b ! (cp - 1) = 0x20 \<Longrightarrow> kill_word b cp tx = (cp, tx)"
  by (simp add: kill_word.simps [of b cp])








text \<open>
  Claim C10. When the byte just before the cursor is a space, the pass of the loop that
  reads Ctrl-W (0x17) erases nothing: the line buffer, the cursor and the transmit state
  (hence the echoed output) are as before, and the word before that space stays.
\<close>

theorem ctrl_w_after_space_erases_nothing:
  assumes "0 < cp" and "b ! (cp - 1) = 0x20"
  shows "getchar_iteration (rx_ok 0x17) b cp tx = Continue b cp tx"
  using assms
  by (simp add: getchar_iteration_def rx_ok_def printable_def kill_word_at_space)

theorem ctrl_w_after_space_erases_nothing_witness:
  "(0::nat) < 4 \<and> [0x66, 0x6F, 0x6F, 0x20 :: byte] ! (4 - 1) = 0x20 \<and>
   getchar_iteration (rx_ok 0x17) [0x66, 0x6F, 0x6F, 0x20] 4 (init_iuart power_on)
     = Continue [0x66, 0x6F, 0x6F, 0x20] 4 (init_iuart power_on)"
  using ctrl_w_after_space_erases_nothing [of 4 "[0x66, 0x6F, 0x6F, 0x20]" "init_iuart power_on"]
  by simp


lemma collect_append:
  "collect evs b cp tx = (Continue b1 cp1 tx1, rest) \<Longrightarrow>
   collect (evs @ evs2) b cp tx = collect evs2 b1 cp1 tx1"
proof (induction evs arbitrary: b cp tx)
  case Nil
  then show ?case by simp
next
  case (Cons ev evs)
  then show ?case
    by (cases "getchar_iteration ev b cp tx") simp_all
qed

text \<open>
  Claim C1, as amended. When \<open>uart_getchar\<close>, collecting a line, has consumed any
  readings that kept it in the loop and then meets a framing error, it returns
  \<open>_FDEV_EOF\<close>, which is \<open>-2\<close>; when it meets an overrun instead it returns
  \<open>_FDEV_ERR\<close>, which is \<open>-1\<close>; when it reads the abort byte 0x03 it returns \<open>-1\<close>.
  The framing error is told apart from the other two by the returned value; overrun and
  abort return the same value.
\<close>

theorem getchar_error_codes:
  assumes "getchar_rxp st = None"
    and "collect evs (getchar_b st) 0 tx = (Continue b1 cp1 tx1, [])"
  shows "(FE0 ev \<longrightarrow>
            map_option fst (uart_getchar (evs @ ev # rest) st tx) = Some (- 2)) \<and>
         (\<not> FE0 ev \<and> DOR0 ev \<longrightarrow>
            map_option fst (uart_getchar (evs @ ev # rest) st tx) = Some (- 1)) \<and>
         (\<not> FE0 ev \<and> \<not> DOR0 ev \<and> ReceivedByte ev = 0x03 \<longrightarrow>
            map_option fst (uart_getchar (evs @ ev # rest) st tx) = Some (- 1))"
proof -
  have c: "collect (evs @ ev # rest) (getchar_b st) 0 tx = collect (ev # rest) b1 cp1 tx1"
    using assms(2) by (rule collect_append)
  have fe: "getchar_iteration ev b1 cp1 tx1 = Return (- 2) b1 tx1" if "FE0 ev"
    using that by (simp add: getchar_iteration_def FDEV_EOF_def)
  have dor: "getchar_iteration ev b1 cp1 tx1 = Return (- 1) b1 tx1" if "\<not> FE0 ev" "DOR0 ev"
    using that by (simp add: getchar_iteration_def FDEV_ERR_def)
  have etx: "getchar_iteration ev b1 cp1 tx1 = Return (- 1) b1 tx1"
    if "\<not> FE0 ev" "\<not> DOR0 ev" "ReceivedByte ev = 0x03"
    using that by (simp add: getchar_iteration_def printable_def)
  show ?thesis
    using fe dor etx by (auto simp: uart_getchar_def assms(1) c)
qed

text \<open>
  Claim C1 as stated asks for three pairwise distinct codes. A reading with the overrun
  bit set and a reading of the abort byte 0x03 make \<open>uart_getchar\<close> return the same
  value \<open>-1\<close>.
\<close>

theorem overrun_and_abort_same_code_counterexample:
  "map_option fst (uart_getchar [\<lparr> FE0 = False, DOR0 = True, ReceivedByte = 0x41 \<rparr>]
                     rx_power_on (init_iuart power_on)) = Some (- 1) \<and>
   map_option fst (uart_getchar [\<lparr> FE0 = False, DOR0 = False, ReceivedByte = 0x03 \<rparr>]
                     rx_power_on (init_iuart power_on)) = Some (- 1)"
  by code_simp

theorem getchar_error_codes_witness:
  "getchar_rxp rx_power_on = None \<and>
   map_option fst (uart_getchar ([rx_ok 0x61] @ \<lparr> FE0 = True, DOR0 = False, ReceivedByte = 0 \<rparr> # [])
                     rx_power_on (init_iuart power_on)) = Some (- 2) \<and>
   map_option fst (uart_getchar ([rx_ok 0x61] @ \<lparr> FE0 = False, DOR0 = True, ReceivedByte = 0 \<rparr> # [])
                     rx_power_on (init_iuart power_on)) = Some (- 1) \<and>
   map_option fst (uart_getchar ([rx_ok 0x61] @ rx_ok 0x03 # [])
                     rx_power_on (init_iuart power_on)) = Some (- 1)"
proof -
  have n: "getchar_rxp rx_power_on = None" by (simp add: rx_power_on_def)
  have c: "collect [rx_ok 0x61] (getchar_b rx_power_on) 0 (init_iuart power_on) =
      (Continue ((getchar_b rx_power_on)[0 := 0x61]) 1 (snd (UART0_Putchar 0x61 (init_iuart power_on))), [])"
    by (simp add: iteration_printable printable_def RX_BUFSIZE_def)
  note t = getchar_error_codes [OF n c]
  show ?thesis
    using t [of "\<lparr> FE0 = True, DOR0 = False, ReceivedByte = 0 \<rparr>" "[]"]
      t [of "\<lparr> FE0 = False, DOR0 = True, ReceivedByte = 0 \<rparr>" "[]"]
      t [of "rx_ok 0x03" "[]"] n
    by (simp add: rx_ok_def)
qed








lemma snd_Putchars_Cons:
  "snd (UART0_Putchars (c # cs) tx) = snd (UART0_Putchars cs (snd (UART0_Putchar c tx)))"
  by (simp add: split_beta Let_def)




lemma putchars_wf: "uart_wf s \<Longrightarrow> uart_wf (snd (UART0_Putchars es s))"
proof (induction es arbitrary: s)
  case Nil
  then show ?case by simp
next
  case (Cons c es)
  have "uart_wf (snd (UART0_Putchar c s))" using Cons.prems by (rule putchar_wf)
  then have "uart_wf (snd (UART0_Putchars es (snd (UART0_Putchar c s))))" by (rule Cons.IH)
  then show ?case by (simp add: snd_Putchars_Cons del: UART0_Putchars.simps)
qed











end
